theory Spec2Isabelle
  imports Main "HOL-Library.Word"
begin

section \<open>Data model\<close>

text \<open>
  The source is \<^verbatim>\<open>src/index.ts\<close>: three async generators stacked on a
  \<^verbatim>\<open>ReadableStreamDefaultReader<Uint8Array>\<close>. A reader is modelled by the finite list
  of chunks it delivers before \<^verbatim>\<open>done\<close>; a generator by the list of values it yields,
  in order. A chunk (\<^verbatim>\<open>Uint8Array\<close>) is a list of bytes.
\<close>

type_synonym byte = "8 word"

text \<open>\<^verbatim>\<open>const enum ControlChars\<close>: the compiler inlines the four numbers.\<close>

abbreviation NewLine :: byte where "NewLine \<equiv> 10"
abbreviation CarriageReturn :: byte where "CarriageReturn \<equiv> 13"
abbreviation Space :: byte where "Space \<equiv> 32"
abbreviation Colon :: byte where "Colon \<equiv> 58"

text \<open>
  \<^verbatim>\<open>interface EventSourceMessage\<close>. The field \<^verbatim>\<open>id\<close> is written \<open>id'\<close> (the name
  \<open>id\<close> is HOL's identity function); \<^verbatim>\<open>retry?: number\<close> is \<open>None\<close> when
  \<^verbatim>\<open>undefined\<close>.
\<close>

record EventSourceMessage =
  id' :: string
  event :: string
  data :: string
  retry :: "int option"

text \<open>
  \<^verbatim>\<open>type EventSourceMessagePart\<close>, a union tagged by \<^verbatim>\<open>type\<close>: \<^verbatim>\<open>"empty"\<close>,
  \<^verbatim>\<open>"data"\<close>, \<^verbatim>\<open>"event"\<close>, \<^verbatim>\<open>"id"\<close> (written \<open>Id'\<close>, since \<open>Id\<close> is HOL's
  identity relation) and \<^verbatim>\<open>"retry"\<close>.
\<close>

datatype EventSourceMessagePart = Empty | Data string | Event string | Id' string | Retry int

section \<open>The line splitter: createLineReader\<close>

text \<open>
  \<^verbatim>\<open>Uint8Array.prototype.subarray(begin, end)\<close> for indices that are not negative: both are
  clamped to the length, and the view is empty when \<open>end \<le> begin\<close>.
\<close>

definition subarray :: "byte list \<Rightarrow> nat \<Rightarrow> nat \<Rightarrow> byte list" where
  "subarray arr begin' end' = take (end' - begin') (drop begin' arr)"

text \<open>
  The inner \<^verbatim>\<open>for (; position < bufLength && lineEnd === -1; ++position)\<close> loop with its
  \<^verbatim>\<open>switch\<close>: a colon records \<open>fieldLength\<close> once, a carriage return sets the flag and
  falls through to the newline case, which records \<open>lineEnd\<close>. The result is the
  values of \<open>position\<close>, \<open>fieldLength\<close>, \<open>discardTrailingNewline\<close> and \<open>lineEnd\<close>
  when the loop is left.
\<close>

function scanLine ::
  "byte list \<Rightarrow> nat \<Rightarrow> nat \<Rightarrow> int \<Rightarrow> bool \<Rightarrow> int \<Rightarrow> nat \<times> int \<times> bool \<times> int" where
  "scanLine buffer lineStart position fieldLength discardTrailingNewline lineEnd =
     (if position < length buffer \<and> lineEnd = -1 then
        (if buffer ! position = Colon then
           scanLine buffer lineStart (position + 1)
             (if fieldLength = -1 then int position - int lineStart else fieldLength)
             discardTrailingNewline lineEnd
         else if buffer ! position = CarriageReturn then
           scanLine buffer lineStart (position + 1) fieldLength True (int position)
         else if buffer ! position = NewLine then
           scanLine buffer lineStart (position + 1) fieldLength discardTrailingNewline (int position)
         else
           scanLine buffer lineStart (position + 1) fieldLength discardTrailingNewline lineEnd)
      else (position, fieldLength, discardTrailingNewline, lineEnd))"
  by pat_completeness auto
termination
  by (relation "measure (\<lambda>(buffer, lineStart, position, fieldLength, d, lineEnd). length buffer - position)")
     auto

text \<open>
  The outer \<^verbatim>\<open>while (position < bufLength)\<close> loop over one buffer. Each round first
  consumes the pending flag (skipping a newline that follows a carriage return), then scans
  to the next terminator; without one it breaks, otherwise it yields
  \<^verbatim>\<open>{ line: buffer.subarray(lineStart, lineEnd), fieldLength }\<close> and starts the next line.
  The result is the lines yielded and the values of \<open>lineStart\<close>, \<open>position\<close>,
  \<open>fieldLength\<close> and \<open>discardTrailingNewline\<close> after the loop.
\<close>

function readLines ::
  "byte list \<Rightarrow> nat \<Rightarrow> nat \<Rightarrow> int \<Rightarrow> bool
     \<Rightarrow> (byte list \<times> int) list \<times> nat \<times> nat \<times> int \<times> bool" where
  "readLines buffer lineStart position fieldLength discardTrailingNewline =
     (if position < length buffer then
        (let (lineStart1, position1) =
               (if discardTrailingNewline \<and> buffer ! position = NewLine
                then (position + 1, position + 1) else (lineStart, position));
             (position2, fieldLength2, discard2, lineEnd) =
               scanLine buffer lineStart1 position1 fieldLength False (-1)
         in if lineEnd = -1 then ([], lineStart1, position2, fieldLength2, discard2)
            else (let (ys, r) = readLines buffer position2 position2 (-1) discard2
                  in ((subarray buffer lineStart1 (nat lineEnd), fieldLength2) # ys, r)))
      else ([], lineStart, position, fieldLength, discardTrailingNewline))"
  by pat_completeness auto

text \<open>
  The variables that live across chunks: \<open>buffer\<close> (\<open>None\<close> for
  \<^verbatim>\<open>undefined\<close>), \<open>position\<close>, \<open>fieldLength\<close> and \<open>discardTrailingNewline\<close>.
\<close>

type_synonym line_state = "byte list option \<times> nat \<times> int \<times> bool"

text \<open>
  One round of \<^verbatim>\<open>while (!(result = await reader.read()).done)\<close>: the chunk \<open>arr\<close>
  becomes the buffer or is appended to it, the lines of the buffer are read, and the consumed
  prefix is dropped (\<open>position\<close> never falls below \<open>lineStart\<close>, lemma
  \<open>readLines_lineStart\<close>, so the subtraction is the source's).
\<close>

definition readChunk :: "line_state \<Rightarrow> byte list \<Rightarrow> (byte list \<times> int) list \<times> line_state" where
  "readChunk st arr =
     (case st of (buffer, position, fieldLength, discardTrailingNewline) \<Rightarrow>
        (let (buffer1, position1, fieldLength1) =
               (case buffer of
                  None \<Rightarrow> (arr, 0, -1)
                | Some old \<Rightarrow> (old @ arr, position, fieldLength));
             bufLength = length buffer1;
             (ys, lineStart, position2, fieldLength2, discard2) =
               readLines buffer1 0 position1 fieldLength1 discardTrailingNewline
         in (ys,
             if lineStart = bufLength then (None, position2, fieldLength2, discard2)
             else if lineStart \<noteq> 0
               then (Some (drop lineStart buffer1), position2 - lineStart, fieldLength2, discard2)
             else (Some buffer1, position2, fieldLength2, discard2))))"

fun readChunks :: "line_state \<Rightarrow> byte list list \<Rightarrow> (byte list \<times> int) list \<times> line_state" where
  "readChunks st [] = ([], st)"
| "readChunks st (arr # rest) =
     (let (ys, st1) = readChunk st arr;
          (zs, st2) = readChunks st1 rest
      in (ys @ zs, st2))"

text \<open>After the last chunk: \<^verbatim>\<open>if (buffer !== undefined) yield { line: buffer, fieldLength }\<close>.\<close>

definition remaining :: "line_state \<Rightarrow> (byte list \<times> int) list" where
  "remaining st =
     (case st of (buffer, position, fieldLength, discardTrailingNewline) \<Rightarrow>
        (case buffer of None \<Rightarrow> [] | Some line \<Rightarrow> [(line, fieldLength)]))"

definition initialState :: line_state where
  "initialState = (None, 0, -1, False)"

definition createLineReader :: "byte list list \<Rightarrow> (byte list \<times> int) list" where
  "createLineReader chunks =
     (let (ys, st) = readChunks initialState chunks in ys @ remaining st)"

section \<open>The field parser: readEventMessagePart\<close>

text \<open>
  The body of the \<^verbatim>\<open>for await\<close> loop, for one line: at most one part is yielded.
  \<^verbatim>\<open>TextDecoder.decode\<close> and \<^verbatim>\<open>parseInt(value, 10)\<close> belong to the platform, not to
  the repository; they are the parameters \<open>decode\<close> and \<open>parseInt\<close> (\<open>None\<close> for
  \<^verbatim>\<open>NaN\<close>). Reading \<^verbatim>\<open>line[fieldLength + 1]\<close> beyond the end gives
  \<^verbatim>\<open>undefined\<close>, which is not a space.
\<close>

definition messagePart ::
  "(byte list \<Rightarrow> string) \<Rightarrow> (string \<Rightarrow> int option) \<Rightarrow> byte list \<times> int
     \<Rightarrow> EventSourceMessagePart option" where
  "messagePart decode parseInt l =
     (case l of (line, fieldLength) \<Rightarrow>
        if length line = 0 then Some Empty
        else if fieldLength > 0 then
          (let field = decode (subarray line 0 (nat fieldLength));
               valueOffset = nat fieldLength +
                 (if nat fieldLength + 1 < length line \<and> line ! (nat fieldLength + 1) = Space
                  then 2 else 1);
               value = decode (drop valueOffset line)
           in if field = ''data'' then Some (Data value)
              else if field = ''event'' then Some (Event value)
              else if field = ''id'' then Some (Id' value)
              else if field = ''retry'' then
                (case parseInt value of None \<Rightarrow> None | Some n \<Rightarrow> Some (Retry n))
              else None)
        else None)"

definition readEventMessagePart ::
  "(byte list \<Rightarrow> string) \<Rightarrow> (string \<Rightarrow> int option) \<Rightarrow> byte list list
     \<Rightarrow> EventSourceMessagePart list" where
  "readEventMessagePart decode parseInt chunks =
     List.map_filter (messagePart decode parseInt) (createLineReader chunks)"

section \<open>The message assembler: createEventMessageReader\<close>

definition emptyMessage :: EventSourceMessage where
  "emptyMessage = \<lparr>id' = '''', event = '''', data = '''', retry = None\<rparr>"

text \<open>
  The \<^verbatim>\<open>for await\<close> loop over the parts with its \<^verbatim>\<open>switch (part.type)\<close>, and the
  \<^verbatim>\<open>yield message\<close> after the loop. A JavaScript string is truthy when it is not empty.
\<close>

fun readMessages :: "EventSourceMessage \<Rightarrow> EventSourceMessagePart list \<Rightarrow> EventSourceMessage list" where
  "readMessages message [] = [message]"
| "readMessages message (Empty # parts) = message # readMessages emptyMessage parts"
| "readMessages message (Data v # parts) =
     readMessages
       (message\<lparr>data := (if data message \<noteq> '''' then data message @ ''\<newline>'' @ v else v)\<rparr>)
       parts"
| "readMessages message (Event v # parts) = readMessages (message\<lparr>event := v\<rparr>) parts"
| "readMessages message (Id' v # parts) = readMessages (message\<lparr>id' := v\<rparr>) parts"
| "readMessages message (Retry n # parts) = readMessages (message\<lparr>retry := Some n\<rparr>) parts"

definition createEventMessageReader ::
  "(byte list \<Rightarrow> string) \<Rightarrow> (string \<Rightarrow> int option) \<Rightarrow> byte list list
     \<Rightarrow> EventSourceMessage list" where
  "createEventMessageReader decode parseInt chunks =
     readMessages emptyMessage (readEventMessagePart decode parseInt chunks)"

section \<open>Platform functions on ASCII text\<close>

text \<open>
  For the concrete streams of the examples: \<^verbatim>\<open>TextEncoder.encode\<close> (as the test helper
  \<^verbatim>\<open>createStreamReader\<close> uses it) and \<^verbatim>\<open>TextDecoder.decode\<close>, both on ASCII text, where
  a character is one byte; and \<^verbatim>\<open>parseInt(string, 10)\<close> as ECMAScript defines it: leading
  white space is skipped, one sign is read, the longest prefix of decimal digits is the
  value, and there is no value (\<^verbatim>\<open>NaN\<close>) when that prefix is empty. The result is kept as
  an integer; rounding to a double beyond \<open>2^53\<close> is not modelled.
\<close>

definition encode :: "string \<Rightarrow> byte list" where
  "encode s = map (\<lambda>c. of_nat (of_char c)) s"

definition asciiDecode :: "byte list \<Rightarrow> string" where
  "asciiDecode bs = map (\<lambda>b. char_of (unat b)) bs"

definition isWhiteSpace :: "char \<Rightarrow> bool" where
  "isWhiteSpace c = (c \<in> set [CHR 0x09, CHR 0x0A, CHR 0x0B, CHR 0x0C, CHR 0x0D, CHR '' ''])"

definition isDigit :: "char \<Rightarrow> bool" where
  "isDigit c = (c \<in> set ''0123456789'')"

definition parseInt10 :: "string \<Rightarrow> int option" where
  "parseInt10 inputString =
     (let S = dropWhile isWhiteSpace inputString;
          sign = (if S \<noteq> [] \<and> hd S = CHR ''-'' then -1 else 1);
          S1 = (if S \<noteq> [] \<and> (hd S = CHR ''+'' \<or> hd S = CHR ''-'') then tl S else S);
          Z = takeWhile isDigit S1
      in if Z = [] then None
         else Some (sign * foldl (\<lambda>n c. 10 * n + (int (of_char c) - 48)) 0 Z))"

section \<open>A reference splitter, one byte at a time\<close>

text \<open>
  What the splitter computes, stated without buffers and indices: the bytes are consumed
  one at a time, \<open>cur\<close> holds the bytes of the line in progress and \<open>d\<close> tells that the
  byte before was a carriage return. The result is the finished lines, the line in progress
  and the flag. The index-based loops of the source are proved equal to it below.
\<close>

definition nonterm :: "byte \<Rightarrow> bool" where
  "nonterm b = (b \<noteq> CarriageReturn \<and> b \<noteq> NewLine)"

definition firstColon :: "byte list \<Rightarrow> int" where
  "firstColon line =
     (if Colon \<in> set line then int (length (takeWhile (\<lambda>b. b \<noteq> Colon) line)) else -1)"

fun splitBytes :: "byte list \<Rightarrow> bool \<Rightarrow> byte list \<Rightarrow> byte list list \<times> byte list \<times> bool" where
  "splitBytes cur d [] = ([], cur, d)"
| "splitBytes cur d (b # bs) =
     (if d \<and> b = NewLine then splitBytes [] False bs
      else if b = CarriageReturn \<or> b = NewLine then
        (let (ls, r) = splitBytes [] (b = CarriageReturn) bs in (cur # ls, r))
      else splitBytes (cur @ [b]) False bs)"

definition flush :: "byte list list \<times> byte list \<times> bool \<Rightarrow> byte list list" where
  "flush r = (case r of (lines, cur, d) \<Rightarrow> lines @ (if cur = [] then [] else [cur]))"

definition splitLines :: "byte list \<Rightarrow> byte list list" where
  "splitLines bytes = flush (splitBytes [] False bytes)"

text \<open>Every terminator written as a single newline: \<open>\r\n\<close> and \<open>\r\<close> become \<open>\n\<close>.\<close>

fun normalizeTerminators :: "byte list \<Rightarrow> byte list" where
  "normalizeTerminators [] = []"
| "normalizeTerminators [b] = [if b = CarriageReturn then NewLine else b]"
| "normalizeTerminators (b # c # bs) =
     (if b = CarriageReturn \<and> c = NewLine then NewLine # normalizeTerminators bs
      else if b = CarriageReturn then NewLine # normalizeTerminators (c # bs)
      else b # normalizeTerminators (c # bs))"

text \<open>The bytes after the last terminator of a stream, and the stream up to there.\<close>

definition lastPartial :: "byte list \<Rightarrow> byte list" where
  "lastPartial bytes = rev (takeWhile nonterm (rev bytes))"

definition terminatedPrefix :: "byte list \<Rightarrow> byte list" where
  "terminatedPrefix bytes = rev (dropWhile nonterm (rev bytes))"

text \<open>
  The states the splitter is in between two chunks, and what they stand for in the
  reference splitter: a buffer is kept only while a line is in progress, it holds exactly
  the bytes of that line, all of them scanned.
\<close>

definition stateInv :: "line_state \<Rightarrow> bool" where
  "stateInv st =
     (case st of (buffer, position, fieldLength, d) \<Rightarrow>
        (case buffer of
           None \<Rightarrow> True
         | Some old \<Rightarrow> old \<noteq> [] \<and> position = length old \<and> fieldLength = firstColon old \<and> \<not> d))"

definition pending :: "line_state \<Rightarrow> byte list" where
  "pending st = (case st of (buffer, position, fieldLength, d) \<Rightarrow>
     (case buffer of None \<Rightarrow> [] | Some old \<Rightarrow> old))"

definition flag :: "line_state \<Rightarrow> bool" where
  "flag st = (case st of (buffer, position, fieldLength, d) \<Rightarrow> d)"

text \<open>
  Joining data values with newlines; the value of a field line after its colon; and the
  \<^verbatim>\<open>switch (field)\<close> of the field parser on its own.
\<close>

fun joinLines :: "string list \<Rightarrow> string" where
  "joinLines [] = ''''"
| "joinLines [v] = v"
| "joinLines (v # w # vs) = v @ ''\<newline>'' @ joinLines (w # vs)"

definition skipSpace :: "byte list \<Rightarrow> byte list" where
  "skipSpace v = (case v of [] \<Rightarrow> [] | s # v' \<Rightarrow> if s = Space then v' else v)"

definition partOf :: "(string \<Rightarrow> int option) \<Rightarrow> string \<Rightarrow> string \<Rightarrow> EventSourceMessagePart option" where
  "partOf parseInt field value =
     (if field = ''data'' then Some (Data value)
      else if field = ''event'' then Some (Event value)
      else if field = ''id'' then Some (Id' value)
      else if field = ''retry'' then map_option Retry (parseInt value)
      else None)"

section \<open>Termination of the loop over a buffer\<close>

declare scanLine.simps [simp del]

lemma scanLine_bounds:
  "scanLine buffer ls p fl d le = (p', fl', d', le') \<Longrightarrow>
     p \<le> p' \<and> (p \<le> length buffer \<longrightarrow> p' \<le> length buffer) \<and> (le = -1 \<longrightarrow> le' \<noteq> -1 \<longrightarrow> p < p')"
proof (induction buffer ls p fl d le arbitrary: p' fl' d' le' rule: scanLine.induct)
  case (1 buffer lineStart position fieldLength d lineEnd)
  show ?case
  proof (cases "position < length buffer \<and> lineEnd = -1")
    case False
    with "1.prems" show ?thesis
      by (auto simp: scanLine.simps [of buffer lineStart position])
  next
    case True
    with "1.prems" "1.IH" [of p' fl' d' le'] show ?thesis
      by (simp add: scanLine.simps [of buffer lineStart position] split: if_splits)
  qed
qed

text \<open>Every round that yields a line has moved \<open>position\<close> forward.\<close>

termination readLines
proof (relation "measure (\<lambda>(buffer, lineStart, position, fieldLength, d). length buffer - position)", goal_cases)
  case 1
  show ?case by simp
next
  case (2 buffer lineStart position fieldLength d x lineStart1 position1 y position2 z fieldLength2 w discard2 lineEnd)
  then show ?case
    using scanLine_bounds [of buffer lineStart1 position1 fieldLength False "-1" position2 fieldLength2 discard2 lineEnd]
    by (auto split: if_splits)
qed

declare readLines.simps [simp del]

section \<open>The source loops compute the reference splitter\<close>

lemma subarray_length: "length (subarray xs a b) = min b (length xs) - a"
  by (auto simp: subarray_def)

lemma subarray_append:
  assumes "a \<le> b" "b \<le> c"
  shows "subarray xs a b @ subarray xs b c = subarray xs a c"
proof -
  have "c - a = (b - a) + (c - b)" using assms by simp
  then have "take (c - a) (drop a xs) = take (b - a) (drop a xs) @ take (c - b) (drop (b - a) (drop a xs))"
    by (simp only: take_add)
  with assms show ?thesis by (simp add: subarray_def)
qed

lemma subarray_to_end: "subarray xs a (length xs) = drop a xs"
  by (simp add: subarray_def)

lemma subarray_one: "p < length xs \<Longrightarrow> subarray xs p (Suc p) = [xs ! p]"
  by (simp add: subarray_def take_Suc_conv_app_nth)

lemma subarray_snoc:
  "a \<le> p \<Longrightarrow> p < length xs \<Longrightarrow> subarray xs a (Suc p) = subarray xs a p @ [xs ! p]"
  using subarray_append [of a p "Suc p" xs] by (simp add: subarray_one)

lemma subarray_empty [simp]: "subarray xs a a = []"
  by (simp add: subarray_def)

lemma firstColon_Nil [simp]: "firstColon [] = -1"
  by (simp add: firstColon_def)

lemma takeWhile_all: "x \<notin> set xs \<Longrightarrow> takeWhile (\<lambda>b. b \<noteq> x) xs = xs"
  by (induction xs) auto

lemma firstColon_snoc:
  "firstColon (cur @ [b]) =
     (if firstColon cur \<noteq> -1 then firstColon cur
      else if b = Colon then int (length cur) else -1)"
  by (auto simp: firstColon_def takeWhile_append1 takeWhile_append2 takeWhile_all takeWhile_tail dest: set_takeWhileD)


lemma scanLine_step:
  assumes "ls \<le> e" "e < length buffer" "nonterm (buffer ! e)"
  shows "scanLine buffer ls e (firstColon (subarray buffer ls e)) d (-1) =
         scanLine buffer ls (Suc e) (firstColon (subarray buffer ls (Suc e))) d (-1)"
proof -
  have len: "int (length (subarray buffer ls e)) = int e - int ls"
    using assms by (simp add: subarray_length)
  have snoc: "firstColon (subarray buffer ls (Suc e)) =
     (if firstColon (subarray buffer ls e) \<noteq> -1 then firstColon (subarray buffer ls e)
      else if buffer ! e = Colon then int e - int ls else -1)"
    using assms by (simp only: subarray_snoc firstColon_snoc len)
  show ?thesis
  proof (cases "buffer ! e = Colon")
    case True
    with assms show ?thesis
      by (subst scanLine.simps) (simp add: snoc)
  next
    case False
    with assms show ?thesis
      by (subst scanLine.simps) (simp add: snoc nonterm_def)
  qed
qed

lemma scanLine_advance:
  assumes "p \<le> e" "ls \<le> p" "e \<le> length buffer"
    and "\<forall>i. p \<le> i \<and> i < e \<longrightarrow> nonterm (buffer ! i)"
  shows "scanLine buffer ls p (firstColon (subarray buffer ls p)) d (-1) =
         scanLine buffer ls e (firstColon (subarray buffer ls e)) d (-1)"
  using assms
proof (induction e rule: dec_induct)
  case base
  show ?case by simp
next
  case (step n)
  have "scanLine buffer ls p (firstColon (subarray buffer ls p)) d (-1) =
        scanLine buffer ls n (firstColon (subarray buffer ls n)) d (-1)"
    using step by simp
  also have "\<dots> = scanLine buffer ls (Suc n) (firstColon (subarray buffer ls (Suc n))) d (-1)"
    using step by (intro scanLine_step) auto
  finally show ?case .
qed

lemma scanLine_at_end:
  "scanLine buffer ls (length buffer) fl d (-1) = (length buffer, fl, d, -1)"
  by (subst scanLine.simps) simp

lemma scanLine_done:
  "le \<noteq> -1 \<Longrightarrow> scanLine buffer ls p fl d le = (p, fl, d, le)"
  by (subst scanLine.simps) simp

lemma scanLine_at_terminator:
  assumes "e < length buffer" "\<not> nonterm (buffer ! e)"
  shows "scanLine buffer ls e fl d (-1) = (Suc e, fl, d \<or> buffer ! e = CarriageReturn, int e)"
proof -
  have "int e \<noteq> -1" by simp
  then show ?thesis using assms
    by (subst scanLine.simps) (auto simp: nonterm_def scanLine_done)
qed


lemma set_subarray:
  assumes "x \<in> set (subarray xs p e)"
  shows "\<exists>i. p \<le> i \<and> i < e \<and> i < length xs \<and> x = xs ! i"
proof -
  from assms obtain j where j: "j < length (subarray xs p e)" "x = subarray xs p e ! j"
    by (auto simp: in_set_conv_nth)
  then have "j < e - p" "p + j < length xs" by (auto simp: subarray_length)
  with j have "x = xs ! (p + j)" by (simp add: subarray_def)
  with \<open>j < e - p\<close> \<open>p + j < length xs\<close> show ?thesis
    by (intro exI [of _ "p + j"]) auto
qed

lemma drop_split_at:
  assumes "p \<le> e" "e < length xs"
  shows "drop p xs = subarray xs p e @ xs ! e # drop (Suc e) xs"
proof -
  have "drop p xs = subarray xs p (length xs)" by (simp add: subarray_to_end)
  also have "\<dots> = subarray xs p e @ subarray xs e (length xs)"
    using assms by (simp add: subarray_append)
  also have "subarray xs e (length xs) = xs ! e # drop (Suc e) xs"
    using assms by (simp add: subarray_to_end Cons_nth_drop_Suc)
  finally show ?thesis .
qed

lemma first_terminator:
  assumes "p \<le> length buffer"
  shows "\<exists>e. p \<le> e \<and> e \<le> length buffer \<and> (\<forall>i. p \<le> i \<and> i < e \<longrightarrow> nonterm (buffer ! i))
             \<and> (e < length buffer \<longrightarrow> \<not> nonterm (buffer ! e))"
proof -
  define k where "k = length (takeWhile nonterm (drop p buffer))"
  have k_le: "k \<le> length buffer - p"
    unfolding k_def using length_takeWhile_le [of nonterm "drop p buffer"] by simp
  have before: "nonterm (buffer ! i)" if "p \<le> i" "i < p + k" for i
  proof -
    have "i - p < k" using that by simp
    then have "takeWhile nonterm (drop p buffer) ! (i - p) \<in> set (takeWhile nonterm (drop p buffer))"
      unfolding k_def by simp
    then have "nonterm (takeWhile nonterm (drop p buffer) ! (i - p))"
      by (rule set_takeWhileD [THEN conjunct2])
    moreover have "takeWhile nonterm (drop p buffer) ! (i - p) = drop p buffer ! (i - p)"
      using \<open>i - p < k\<close> unfolding k_def by (rule takeWhile_nth)
    ultimately show ?thesis using that k_le by simp
  qed
  have at: "\<not> nonterm (buffer ! (p + k))" if "p + k < length buffer"
  proof -
    have "k < length (drop p buffer)" using that by simp
    then have "\<not> nonterm (drop p buffer ! k)"
      unfolding k_def by (rule nth_length_takeWhile)
    then show ?thesis using that by simp
  qed
  show ?thesis
    using assms k_le before at by (intro exI [of _ "p + k"]) auto
qed

lemma splitBytes_flag:
  "\<not> (d \<and> b = NewLine) \<Longrightarrow> splitBytes cur d (b # bs) = splitBytes cur False (b # bs)"
  by simp

lemma splitBytes_nonterm:
  "\<forall>b \<in> set seg. nonterm b \<Longrightarrow> splitBytes cur False seg = ([], cur @ seg, False)"
  by (induction seg arbitrary: cur) (auto simp: nonterm_def)

lemma splitBytes_terminated:
  assumes "\<forall>b \<in> set seg. nonterm b" "\<not> nonterm t"
  shows "splitBytes cur False (seg @ t # rest) =
         (let (ls, r) = splitBytes [] (t = CarriageReturn) rest in ((cur @ seg) # ls, r))"
  using assms by (induction seg arbitrary: cur) (auto simp: nonterm_def)

lemma splitBytes_append:
  "splitBytes cur d (xs @ ys) =
     (let (l1, c1, d1) = splitBytes cur d xs; (l2, r) = splitBytes c1 d1 ys in (l1 @ l2, r))"
  by (induction cur d xs rule: splitBytes.induct) (auto split: prod.splits)


lemma readLines_at_end:
  "\<not> p < length buffer \<Longrightarrow> readLines buffer ls p fl d = ([], ls, p, fl, d)"
  by (subst readLines.simps) simp

lemma readLines_skip:
  assumes "p < length buffer" "d" "buffer ! p = NewLine"
  shows "readLines buffer ls p fl d = readLines buffer (Suc p) (Suc p) fl False"
proof (cases "Suc p < length buffer")
  case True
  with assms show ?thesis
    by (subst readLines.simps, subst (2) readLines.simps) simp
next
  case False
  with assms have "Suc p = length buffer" by simp
  with assms show ?thesis
    by (subst readLines.simps) (simp add: readLines_at_end scanLine_at_end [of buffer, simplified])
qed

lemma readLines_flag:
  assumes "p < length buffer" "\<not> (d \<and> buffer ! p = NewLine)"
  shows "readLines buffer ls p fl d = readLines buffer ls p fl False"
  using assms by (subst readLines.simps, subst (2) readLines.simps) auto

lemma readLines_unterminated:
  assumes "ls \<le> p" "p < length buffer"
    and "\<forall>i. p \<le> i \<and> i < length buffer \<longrightarrow> nonterm (buffer ! i)"
  shows "readLines buffer ls p (firstColon (subarray buffer ls p)) False =
         ([], ls, length buffer, firstColon (drop ls buffer), False)"
proof -
  have "scanLine buffer ls p (firstColon (subarray buffer ls p)) False (-1) =
        (length buffer, firstColon (drop ls buffer), False, -1)"
    using assms scanLine_advance [of p "length buffer" ls buffer False]
    by (simp add: scanLine_at_end subarray_to_end)
  with assms show ?thesis
    by (subst readLines.simps) simp
qed

lemma readLines_terminated:
  assumes "ls \<le> p" "p \<le> e" "e < length buffer"
    and "\<forall>i. p \<le> i \<and> i < e \<longrightarrow> nonterm (buffer ! i)"
    and "\<not> nonterm (buffer ! e)"
  shows "readLines buffer ls p (firstColon (subarray buffer ls p)) False =
         (let (ys, r) = readLines buffer (Suc e) (Suc e) (-1) (buffer ! e = CarriageReturn)
          in ((subarray buffer ls e, firstColon (subarray buffer ls e)) # ys, r))"
proof -
  have "scanLine buffer ls p (firstColon (subarray buffer ls p)) False (-1) =
        (Suc e, firstColon (subarray buffer ls e), buffer ! e = CarriageReturn, int e)"
    using assms scanLine_advance [of p e ls buffer False]
    by (simp add: scanLine_at_terminator)
  moreover have "int e \<noteq> -1" by simp
  ultimately show ?thesis using assms
    by (subst readLines.simps) simp
qed


text \<open>The loop leaves \<open>lineStart\<close> at or before \<open>position\<close>.\<close>

lemma readLines_lineStart:
  "lineStart \<le> position \<Longrightarrow>
   readLines buffer lineStart position fieldLength d = (ys, lineStart', position', fieldLength', d') \<Longrightarrow>
   lineStart' \<le> position'"
proof (induction "length buffer - position" arbitrary: lineStart position fieldLength d ys rule: less_induct)
  case less
  show ?case
  proof (cases "position < length buffer")
    case False
    with less.prems show ?thesis by (simp add: readLines_at_end)
  next
    case True
    define lineStart1 where "lineStart1 = (if d \<and> buffer ! position = NewLine then position + 1 else lineStart)"
    define position1 where "position1 = (if d \<and> buffer ! position = NewLine then position + 1 else position)"
    obtain position2 fieldLength2 discard2 lineEnd where
      sc: "scanLine buffer lineStart1 position1 fieldLength False (-1) = (position2, fieldLength2, discard2, lineEnd)"
      by (cases "scanLine buffer lineStart1 position1 fieldLength False (-1)") auto
    have b: "lineStart1 \<le> position1" "position \<le> position1" "position1 \<le> length buffer"
      using less.prems(1) True by (auto simp: lineStart1_def position1_def)
    from scanLine_bounds [OF sc] b have p2: "position1 \<le> position2" "position2 \<le> length buffer"
      "lineEnd \<noteq> -1 \<longrightarrow> position1 < position2" by auto
    have unf: "readLines buffer lineStart position fieldLength d =
      (if lineEnd = -1 then ([], lineStart1, position2, fieldLength2, discard2)
       else (let (ys, r) = readLines buffer position2 position2 (-1) discard2
             in ((subarray buffer lineStart1 (nat lineEnd), fieldLength2) # ys, r)))"
      using True sc
      by (subst readLines.simps) (auto simp: lineStart1_def position1_def)
    show ?thesis
    proof (cases "lineEnd = -1")
      case True
      with unf less.prems(2) b p2 show ?thesis by simp
    next
      case False
      obtain zs where "readLines buffer position2 position2 (-1) discard2 = (zs, lineStart', position', fieldLength', d')"
        using unf less.prems(2) False by (auto split: prod.splits)
      moreover have "length buffer - position2 < length buffer - position"
        using False p2 b True by simp
      ultimately show ?thesis
        using less.hyps [of position2 position2 "-1" discard2 zs] by simp
    qed
  qed
qed

lemma readLines_splitBytes:
  assumes "ls \<le> p" "p \<le> length buffer" "d \<longrightarrow> ls = p"
  shows "readLines buffer ls p (firstColon (subarray buffer ls p)) d =
     (case splitBytes (subarray buffer ls p) d (drop p buffer) of
        (lines, cur', d') \<Rightarrow>
          (map (\<lambda>l. (l, firstColon l)) lines, length buffer - length cur', length buffer,
           firstColon cur', d'))"
  using assms
proof (induction "length buffer - p" arbitrary: ls p d rule: less_induct)
  case less
  show ?case
  proof (cases "p < length buffer")
    case False
    with less.prems have "p = length buffer" by simp
    with less.prems show ?thesis
      by (simp add: readLines_at_end subarray_length)
  next
    case True
    note p_lt = True
    have dropp: "drop p buffer = buffer ! p # drop (Suc p) buffer"
      using p_lt by (simp add: Cons_nth_drop_Suc)
    show ?thesis
    proof (cases "d \<and> buffer ! p = NewLine")
      case True
      with less.prems have "ls = p" by simp
      have "readLines buffer ls p (firstColon (subarray buffer ls p)) d =
            readLines buffer (Suc p) (Suc p) (firstColon (subarray buffer (Suc p) (Suc p))) False"
        using True p_lt \<open>ls = p\<close> by (simp add: readLines_skip)
      also have "\<dots> = (case splitBytes (subarray buffer (Suc p) (Suc p)) False (drop (Suc p) buffer) of
        (lines, cur', d') \<Rightarrow>
          (map (\<lambda>l. (l, firstColon l)) lines, length buffer - length cur', length buffer,
           firstColon cur', d'))"
        using p_lt by (intro less.hyps) auto
      also have "splitBytes (subarray buffer (Suc p) (Suc p)) False (drop (Suc p) buffer) =
                 splitBytes (subarray buffer ls p) d (drop p buffer)"
        using True \<open>ls = p\<close> by (simp add: dropp)
      finally show ?thesis .
    next
      case False
      define cur where "cur = subarray buffer ls p"
      have run: "splitBytes cur d (drop p buffer) = splitBytes cur False (drop p buffer)"
        using False by (simp add: dropp)
      have rd: "readLines buffer ls p (firstColon cur) d =
                readLines buffer ls p (firstColon cur) False"
        using p_lt False by (rule readLines_flag)
      from first_terminator [of p buffer] less.prems obtain e where
        e: "p \<le> e" "e \<le> length buffer" "\<forall>i. p \<le> i \<and> i < e \<longrightarrow> nonterm (buffer ! i)"
           "e < length buffer \<longrightarrow> \<not> nonterm (buffer ! e)"
        by blast
      show ?thesis
      proof (cases "e = length buffer")
        case True
        have all: "\<forall>b \<in> set (drop p buffer). nonterm b"
        proof
          fix b assume "b \<in> set (drop p buffer)"
          then have "b \<in> set (subarray buffer p (length buffer))" by (simp add: subarray_to_end)
          from set_subarray [OF this] e True show "nonterm b" by auto
        qed
        have "cur @ drop p buffer = drop ls buffer"
          using less.prems subarray_append [of ls p "length buffer" buffer]
          by (simp add: cur_def subarray_to_end)
        then have "splitBytes cur False (drop p buffer) = ([], drop ls buffer, False)"
          using splitBytes_nonterm [OF all, of cur] by simp
        moreover have "readLines buffer ls p (firstColon (subarray buffer ls p)) False =
            ([], ls, length buffer, firstColon (drop ls buffer), False)"
          using less.prems p_lt e True by (intro readLines_unterminated) auto
        ultimately show ?thesis
          using less.prems unfolding cur_def [symmetric] by (simp add: rd run)
      next
        case False
        with e have e_lt: "e < length buffer" and at_e: "\<not> nonterm (buffer ! e)" by auto
        have seg: "\<forall>b \<in> set (subarray buffer p e). nonterm b"
        proof
          fix b assume "b \<in> set (subarray buffer p e)"
          from set_subarray [OF this] e show "nonterm b" by auto
        qed
        have line: "cur @ subarray buffer p e = subarray buffer ls e"
          using less.prems e by (simp add: cur_def subarray_append)
        have "splitBytes cur False (drop p buffer) =
              (let (ls', r) = splitBytes [] (buffer ! e = CarriageReturn) (drop (Suc e) buffer)
               in (subarray buffer ls e # ls', r))"
          using splitBytes_terminated [OF seg at_e, of cur "drop (Suc e) buffer"]
          by (simp add: drop_split_at [OF e(1) e_lt] line)
        moreover have "readLines buffer ls p (firstColon (subarray buffer ls p)) False =
           (let (ys, r) = readLines buffer (Suc e) (Suc e) (-1) (buffer ! e = CarriageReturn)
            in ((subarray buffer ls e, firstColon (subarray buffer ls e)) # ys, r))"
          using less.prems e e_lt at_e by (intro readLines_terminated) auto
        moreover have "readLines buffer (Suc e) (Suc e) (firstColon (subarray buffer (Suc e) (Suc e)))
              (buffer ! e = CarriageReturn) =
           (case splitBytes (subarray buffer (Suc e) (Suc e)) (buffer ! e = CarriageReturn) (drop (Suc e) buffer) of
             (lines, cur', d') \<Rightarrow>
               (map (\<lambda>l. (l, firstColon l)) lines, length buffer - length cur', length buffer,
                firstColon cur', d'))"
          using e e_lt by (intro less.hyps) auto
        ultimately show ?thesis
          unfolding cur_def [symmetric] by (simp add: rd run split: prod.splits)
      qed
    qed
  qed
qed


lemma splitBytes_suffix:
  "splitBytes cur d bs = (lines, cur', d') \<Longrightarrow> \<exists>pre. cur @ bs = pre @ cur'"
proof (induction cur d bs arbitrary: lines rule: splitBytes.induct)
  case (1 cur d)
  then show ?case by simp
next
  case (2 cur d b bs)
  show ?case
  proof (cases "d \<and> b = NewLine")
    case True
    with 2 obtain pre where "[] @ bs = pre @ cur'" by fastforce
    then have "cur @ b # bs = (cur @ b # pre) @ cur'" by simp
    then show ?thesis by blast
  next
    case False
    note nd = False
    show ?thesis
    proof (cases "b = CarriageReturn \<or> b = NewLine")
      case True
      with nd 2 obtain pre where "[] @ bs = pre @ cur'"
        by (fastforce split: prod.splits)
      then have "cur @ b # bs = (cur @ b # pre) @ cur'" by simp
      then show ?thesis by blast
    next
      case False
      with nd 2 obtain pre where "(cur @ [b]) @ bs = pre @ cur'" by fastforce
      then show ?thesis by auto
    qed
  qed
qed

lemma splitBytes_pending_flag:
  "splitBytes cur d bs = (lines, cur', d') \<Longrightarrow> d \<longrightarrow> cur = [] \<Longrightarrow> d' \<longrightarrow> cur' = []"
  by (induction cur d bs arbitrary: lines rule: splitBytes.induct)
     (auto split: if_splits prod.splits)

lemma readChunk_splitBytes:
  assumes "stateInv st" and "splitBytes (pending st) (flag st) arr = (lines, cur', d')"
  shows "\<exists>st'. readChunk st arr = (map (\<lambda>l. (l, firstColon l)) lines, st') \<and>
               stateInv st' \<and> pending st' = cur' \<and> flag st' = d'"
proof -
  obtain buffer position fieldLength d where st: "st = (buffer, position, fieldLength, d)"
    by (cases st) auto
  define cur where "cur = pending st"
  define buffer1 where "buffer1 = cur @ arr"
  define p where "p = length cur"
  define ls' where "ls' = length buffer1 - length cur'"
  have run: "splitBytes cur d arr = (lines, cur', d')"
    using assms(2) by (simp add: cur_def flag_def st)
  have sub: "subarray buffer1 0 p = cur" "drop p buffer1 = arr"
    by (simp_all add: buffer1_def p_def subarray_def)
  have dflag: "d \<longrightarrow> cur = []"
    using assms(1) by (auto simp: cur_def st stateInv_def pending_def split: option.splits)
  have "readLines buffer1 0 p (firstColon (subarray buffer1 0 p)) d =
     (case splitBytes (subarray buffer1 0 p) d (drop p buffer1) of
        (lines, cur', d') \<Rightarrow>
          (map (\<lambda>l. (l, firstColon l)) lines, length buffer1 - length cur', length buffer1,
           firstColon cur', d'))"
    using dflag by (intro readLines_splitBytes) (auto simp: buffer1_def p_def)
  then have rl: "readLines buffer1 0 p (firstColon cur) d =
      (map (\<lambda>l. (l, firstColon l)) lines, ls', length buffer1, firstColon cur', d')"
    by (simp add: sub run ls'_def)
  from splitBytes_suffix [OF run] obtain pre where pre: "buffer1 = pre @ cur'"
    by (auto simp: buffer1_def)
  then have dr: "drop ls' buffer1 = cur'" by (simp add: ls'_def)
  have len: "length buffer1 - ls' = length cur'" using pre by (simp add: ls'_def)
  have fl: "d' \<longrightarrow> cur' = []"
    using splitBytes_pending_flag [OF run] dflag by simp
  have start: "(case buffer of None \<Rightarrow> (arr, 0, -1) | Some old \<Rightarrow> (old @ arr, position, fieldLength))
               = (buffer1, p, firstColon cur)"
    using assms(1) by (auto simp: st stateInv_def cur_def pending_def buffer1_def p_def split: option.splits)
  have rc: "readChunk st arr = (map (\<lambda>l. (l, firstColon l)) lines,
      if ls' = length buffer1 then (None, length buffer1, firstColon cur', d')
      else if ls' \<noteq> 0 then (Some cur', length cur', firstColon cur', d')
      else (Some buffer1, length buffer1, firstColon cur', d'))"
    unfolding readChunk_def st by (simp add: start rl dr len)
  show ?thesis
  proof (cases "cur' = []")
    case True
    then have "ls' = length buffer1" by (simp add: ls'_def)
    then show ?thesis
      by (simp add: rc stateInv_def pending_def flag_def True)
  next
    case False
    then have ne: "ls' \<noteq> length buffer1" using pre by (simp add: ls'_def)
    show ?thesis
    proof (cases "ls' = 0")
      case True
      with pre have "cur' = buffer1" by (auto simp: ls'_def)
      with False fl ne True show ?thesis
        by (simp add: rc stateInv_def pending_def flag_def)
    next
      case nz: False
      with False fl ne show ?thesis
        by (simp add: rc stateInv_def pending_def flag_def)
    qed
  qed
qed

lemma readChunks_splitBytes:
  assumes "stateInv st" and "splitBytes (pending st) (flag st) (concat chunks) = (lines, cur', d')"
  shows "\<exists>st'. readChunks st chunks = (map (\<lambda>l. (l, firstColon l)) lines, st') \<and>
               stateInv st' \<and> pending st' = cur' \<and> flag st' = d'"
  using assms
proof (induction chunks arbitrary: st lines)
  case Nil
  then show ?case by simp
next
  case (Cons arr rest)
  obtain l1 c1 d1 where r1: "splitBytes (pending st) (flag st) arr = (l1, c1, d1)"
    by (cases "splitBytes (pending st) (flag st) arr") auto
  obtain l2 where r2: "splitBytes c1 d1 (concat rest) = (l2, cur', d')" and lines: "lines = l1 @ l2"
    using Cons.prems(2) r1 by (auto simp: splitBytes_append split: prod.splits)
  from readChunk_splitBytes [OF Cons.prems(1) r1] obtain st1 where
    st1: "readChunk st arr = (map (\<lambda>l. (l, firstColon l)) l1, st1)"
      "stateInv st1" "pending st1 = c1" "flag st1 = d1"
    by blast
  from Cons.IH [of st1 l2] st1 r2 obtain st' where
    st': "readChunks st1 rest = (map (\<lambda>l. (l, firstColon l)) l2, st')"
      "stateInv st'" "pending st' = cur'" "flag st' = d'"
    by auto
  show ?case
    by (simp add: st1 st' lines)
qed

lemma createLineReader_splitLines:
  "createLineReader chunks = map (\<lambda>l. (l, firstColon l)) (splitLines (concat chunks))"
proof -
  obtain lines cur' d' where r: "splitBytes [] False (concat chunks) = (lines, cur', d')"
    by (cases "splitBytes [] False (concat chunks)") auto
  have ok: "stateInv initialState" by (simp add: stateInv_def initialState_def)
  have "splitBytes (pending initialState) (flag initialState) (concat chunks) = (lines, cur', d')"
    using r by (simp add: pending_def flag_def initialState_def)
  from readChunks_splitBytes [OF ok this] obtain st' where
    st': "readChunks initialState chunks = (map (\<lambda>l. (l, firstColon l)) lines, st')"
      "stateInv st'" "pending st' = cur'" "flag st' = d'"
    by blast
  obtain b p f d where s: "st' = (b, p, f, d)" by (cases st') auto
  have "remaining st' = map (\<lambda>l. (l, firstColon l)) (if cur' = [] then [] else [cur'])"
    using st'(2,3) by (auto simp: s remaining_def stateInv_def pending_def split: option.splits)
  then show ?thesis
    by (simp add: createLineReader_def st'(1) splitLines_def flush_def r)
qed


lemma flush_Cons: "flush (case r of (ls, r') \<Rightarrow> (l # ls, r')) = l # flush r"
  by (simp add: flush_def split: prod.splits)

lemma splitBytes_NL:
  "splitBytes cur False (NewLine # bs) = (case splitBytes [] False bs of (ls, r) \<Rightarrow> (cur # ls, r))"
  by simp

lemma splitBytes_CR:
  "splitBytes cur d (CarriageReturn # bs) = (case splitBytes [] True bs of (ls, r) \<Rightarrow> (cur # ls, r))"
  by simp

lemma splitBytes_not_CR:
  "b \<noteq> CarriageReturn \<Longrightarrow> flush (splitBytes cur False (b # bs)) =
     (if b = NewLine then cur # flush (splitBytes [] False bs) else flush (splitBytes (cur @ [b]) False bs))"
  by (simp add: flush_Cons)

lemma splitBytes_normalize:
  "flush (splitBytes cur False (normalizeTerminators bs)) = flush (splitBytes cur False bs)"
proof (induction bs arbitrary: cur rule: normalizeTerminators.induct)
  case 1
  show ?case by simp
next
  case (2 b)
  show ?case by (simp add: flush_def)
next
  case (3 b c bs)
  show ?case
  proof (cases "b = CarriageReturn")
    case True
    note cr = True
    show ?thesis
    proof (cases "c = NewLine")
      case True
      with cr 3(1) [of "[]"] show ?thesis by (simp add: flush_Cons)
    next
      case False
      then have fl: "splitBytes [] True (c # bs) = splitBytes [] False (c # bs)"
        by (intro splitBytes_flag) simp
      have "normalizeTerminators (b # c # bs) = NewLine # normalizeTerminators (c # bs)"
        using cr False by simp
      then have "flush (splitBytes cur False (normalizeTerminators (b # c # bs))) =
                 cur # flush (splitBytes [] False (normalizeTerminators (c # bs)))"
        by (simp only: splitBytes_NL flush_Cons)
      also have "\<dots> = cur # flush (splitBytes [] False (c # bs))"
        using 3(2) [of "[]"] cr False by simp
      also have "\<dots> = flush (splitBytes cur False (b # c # bs))"
        unfolding cr by (simp only: splitBytes_CR flush_Cons fl)
      finally show ?thesis .
    qed
  next
    case False
    then have "normalizeTerminators (b # c # bs) = b # normalizeTerminators (c # bs)"
      by simp
    moreover have "flush (splitBytes c' False (normalizeTerminators (c # bs))) =
                   flush (splitBytes c' False (c # bs))" for c'
      using 3(3) False by simp
    ultimately show ?thesis
      by (simp only: splitBytes_not_CR [OF False])

  qed
qed

lemma splitBytes_nonterm_any:
  "\<forall>b \<in> set seg. nonterm b \<Longrightarrow> splitBytes cur d seg = ([], cur @ seg, d \<and> seg = [])"
  by (cases seg) (auto simp: splitBytes_nonterm nonterm_def)

lemma splitBytes_ends_terminated:
  assumes "bs \<noteq> []" "\<not> nonterm (last bs)"
  shows "fst (snd (splitBytes cur d bs)) = []"
proof -
  have one: "fst (snd (splitBytes c e [last bs])) = []" for c e
    using assms(2) by (auto simp: nonterm_def)
  have "bs = butlast bs @ [last bs]" using assms(1) by simp
  then have "splitBytes cur d bs = splitBytes cur d (butlast bs @ [last bs])" by simp
  then show ?thesis
    unfolding splitBytes_append using one by (simp add: split_beta Let_def)
qed

section \<open>Claims about the line splitter\<close>

text \<open>
  Claim C1 (chunk-boundary invariance). For every list of chunks, empty chunks included,
  the line splitter yields the same sequence of (line, fieldLength) pairs as on the single
  chunk that holds all their bytes.
\<close>

theorem createLineReader_chunk_invariance:
  "createLineReader chunks = createLineReader [concat chunks]"
  by (simp add: createLineReader_splitLines)

subsection \<open>Line terminators\<close>

lemma splitLines_terminated:
  assumes "\<forall>b \<in> set l. nonterm b" "\<not> nonterm t"
  shows "splitLines (l @ t # rest) = l # flush (splitBytes [] (t = CarriageReturn) rest)"
  using splitBytes_terminated [OF assms, of "[]" rest]
  by (simp add: splitLines_def flush_Cons)

lemma flush_flag_NL: "flush (splitBytes [] True (NewLine # ys)) = splitLines ys"
  by (simp add: splitLines_def)

lemma flush_flag_other:
  assumes "bs = [] \<or> hd bs \<noteq> NewLine"
  shows "flush (splitBytes [] True bs) = splitLines bs"
proof (cases bs)
  case Nil
  then show ?thesis by (simp add: splitLines_def flush_def)
next
  case (Cons b bs')
  with assms have "splitBytes [] True (b # bs') = splitBytes [] False (b # bs')"
    by (intro splitBytes_flag) simp
  with Cons show ?thesis by (simp add: splitLines_def)
qed

text \<open>
  Claim C5 (line terminators). On every stream, however it is cut into chunks, the
  splitter yields what it yields on the stream in which every \<open>\r\n\<close> pair and every
  single \<open>\r\<close> has been replaced by one \<open>\n\<close>: a \<open>\r\n\<close> pair is one terminator.
  And a line \<open>l\<close> without terminator bytes is ended alike, as \<open>(l, firstColon l)\<close>
  followed by the lines of the rest of the stream, by \<open>\n\<close>, by \<open>\r\n\<close>, by \<open>\r\<close>
  with the \<open>\n\<close> opening the next chunk (which then yields no empty line), and by a
  \<open>\r\<close> that no \<open>\n\<close> follows.
\<close>

theorem createLineReader_terminators:
  "createLineReader chunks = createLineReader [normalizeTerminators (concat chunks)]
   \<and> (CarriageReturn \<notin> set l \<and> NewLine \<notin> set l \<longrightarrow>
        createLineReader ((l @ [NewLine]) # rest) = (l, firstColon l) # createLineReader rest
      \<and> createLineReader ((l @ [CarriageReturn, NewLine]) # rest) = (l, firstColon l) # createLineReader rest
      \<and> createLineReader ((l @ [CarriageReturn]) # (NewLine # ys) # rest)
           = (l, firstColon l) # createLineReader (ys # rest)
      \<and> (concat rest = [] \<or> hd (concat rest) \<noteq> NewLine \<longrightarrow>
           createLineReader ((l @ [CarriageReturn]) # rest) = (l, firstColon l) # createLineReader rest))"
proof (intro conjI impI)
  show "createLineReader chunks = createLineReader [normalizeTerminators (concat chunks)]"
    by (simp add: createLineReader_splitLines splitLines_def splitBytes_normalize)
next
  assume "CarriageReturn \<notin> set l \<and> NewLine \<notin> set l"
  then have l: "\<forall>b \<in> set l. nonterm b" by (auto simp: nonterm_def)
  have nl: "\<not> nonterm NewLine" and cr: "\<not> nonterm CarriageReturn" by (simp_all add: nonterm_def)
  show "createLineReader ((l @ [NewLine]) # rest) = (l, firstColon l) # createLineReader rest"
    using splitLines_terminated [OF l nl, of "concat rest"]
    by (simp add: createLineReader_splitLines splitLines_def)
  show "createLineReader ((l @ [CarriageReturn, NewLine]) # rest) = (l, firstColon l) # createLineReader rest"
    using splitLines_terminated [OF l cr, of "NewLine # concat rest"]
    by (simp add: createLineReader_splitLines flush_flag_NL del: splitBytes.simps)
  show "createLineReader ((l @ [CarriageReturn]) # (NewLine # ys) # rest)
           = (l, firstColon l) # createLineReader (ys # rest)"
    using splitLines_terminated [OF l cr, of "NewLine # ys @ concat rest"]
    by (simp add: createLineReader_splitLines flush_flag_NL del: splitBytes.simps)
  assume "concat rest = [] \<or> hd (concat rest) \<noteq> NewLine"
  from flush_flag_other [OF this]
  show "createLineReader ((l @ [CarriageReturn]) # rest) = (l, firstColon l) # createLineReader rest"
    using splitLines_terminated [OF l cr, of "concat rest"]
    by (simp add: createLineReader_splitLines del: splitBytes.simps)
qed

theorem createLineReader_terminators_witness:
  "CarriageReturn \<notin> set (encode ''a:b'') \<and> NewLine \<notin> set (encode ''a:b'')
   \<and> hd (concat [encode ''c'']) \<noteq> NewLine
   \<and> createLineReader [encode ''a:b'' @ [NewLine], encode ''c''] = [(encode ''a:b'', 1), (encode ''c'', -1)]
   \<and> createLineReader [encode ''a:b'' @ [CarriageReturn, NewLine], encode ''c''] = [(encode ''a:b'', 1), (encode ''c'', -1)]
   \<and> createLineReader [encode ''a:b'' @ [CarriageReturn], NewLine # encode ''d'', encode ''c'']
        = [(encode ''a:b'', 1), (encode ''dc'', -1)]
   \<and> createLineReader [encode ''a:b'' @ [CarriageReturn], encode ''c''] = [(encode ''a:b'', 1), (encode ''c'', -1)]"
proof -
  have h: "CarriageReturn \<notin> set (encode ''a:b'') \<and> NewLine \<notin> set (encode ''a:b'')"
    by (simp add: encode_def)
  have g: "hd (concat [encode ''c'']) \<noteq> NewLine"
    by (simp add: encode_def)
  have fc: "firstColon (encode ''a:b'') = 1" by (simp add: encode_def firstColon_def)
  have c: "createLineReader [encode ''c''] = [(encode ''c'', -1)]" by code_simp
  have c2: "createLineReader [encode ''d'', encode ''c''] = [(encode ''dc'', -1)]" by code_simp
  note t = createLineReader_terminators [of "[]" "encode ''a:b''" "[encode ''c'']" "encode ''d''",
      THEN conjunct2, rule_format, OF h]
  from t g h show ?thesis
    by (simp add: fc c c2)
qed


subsection \<open>The offset of the first colon\<close>

lemma firstColon_absent: "Colon \<notin> set line \<Longrightarrow> firstColon line = -1"
  by (simp add: firstColon_def)

lemma takeWhile_first:
  "x \<in> set xs \<Longrightarrow>
     length (takeWhile (\<lambda>b. b \<noteq> x) xs) < length xs
     \<and> xs ! length (takeWhile (\<lambda>b. b \<noteq> x) xs) = x"
  by (induction xs) auto

lemma firstColon_present:
  assumes "Colon \<in> set line"
  shows "0 \<le> firstColon line \<and> nat (firstColon line) < length line
         \<and> line ! nat (firstColon line) = Colon
         \<and> Colon \<notin> set (take (nat (firstColon line)) line)"
proof -
  define k where "k = length (takeWhile (\<lambda>b. b \<noteq> Colon) line)"
  have fc: "firstColon line = int k" using assms by (simp add: firstColon_def k_def)
  have lt: "k < length line" and at: "line ! k = Colon"
    unfolding k_def using takeWhile_first [OF assms] by simp_all
  have "take k line = takeWhile (\<lambda>b. b \<noteq> Colon) line"
    unfolding k_def by (rule takeWhile_eq_take [symmetric])
  then have "Colon \<notin> set (take k line)"
    by (auto dest: set_takeWhileD)
  with fc lt at show ?thesis by simp
qed

lemma firstColon_split:
  "Colon \<notin> set name \<Longrightarrow> firstColon (name @ Colon # v) = int (length name)"
  by (induction name) (auto simp: firstColon_def)

text \<open>
  Claim C6 (the separator offset). Every line the splitter yields comes with the index,
  counted from the start of the line, of the first colon of the line: the byte there is a
  colon and none stands before it; the offset is \<open>-1\<close> when the line has no colon. So a
  line \<open>name:v\<close> whose \<open>name\<close> has no colon is yielded whole with the offset
  \<open>length name\<close>, whatever colons \<open>v\<close> holds: they stay in the part after the
  separator.
\<close>

theorem createLineReader_fieldLength:
  "((line, fieldLength) \<in> set (createLineReader chunks) \<longrightarrow>
      (Colon \<notin> set line \<longrightarrow> fieldLength = -1) \<and>
      (Colon \<in> set line \<longrightarrow>
         0 \<le> fieldLength \<and> nat fieldLength < length line \<and> line ! nat fieldLength = Colon
         \<and> Colon \<notin> set (take (nat fieldLength) line)))
   \<and> (Colon \<notin> set name \<and> CarriageReturn \<notin> set (name @ v) \<and> NewLine \<notin> set (name @ v) \<longrightarrow>
        createLineReader [name @ Colon # v @ [NewLine]] = [(name @ Colon # v, int (length name))])"
proof (intro conjI impI)
  assume "(line, fieldLength) \<in> set (createLineReader chunks)"
  then have fl: "fieldLength = firstColon line"
    by (auto simp: createLineReader_splitLines)
  show "fieldLength = -1" if "Colon \<notin> set line"
    using that fl by (simp add: firstColon_absent)
  assume c: "Colon \<in> set line"
  from firstColon_present [OF c]
  show "0 \<le> fieldLength" "nat fieldLength < length line" "line ! nat fieldLength = Colon"
    "Colon \<notin> set (take (nat fieldLength) line)"
    by (simp_all add: fl)
next
  assume a: "Colon \<notin> set name \<and> CarriageReturn \<notin> set (name @ v) \<and> NewLine \<notin> set (name @ v)"
  then have l: "\<forall>b \<in> set (name @ Colon # v). nonterm b" by (auto simp: nonterm_def)
  have nl: "\<not> nonterm NewLine" by (simp add: nonterm_def)
  have "splitLines ((name @ Colon # v) @ NewLine # []) = [name @ Colon # v]"
    unfolding splitLines_terminated [OF l nl] by (simp add: flush_def)
  then show "createLineReader [name @ Colon # v @ [NewLine]] = [(name @ Colon # v, int (length name))]"
    using a by (simp add: createLineReader_splitLines firstColon_split)
qed

theorem createLineReader_fieldLength_witness:
  "(encode ''id: abc: def'', 2) \<in> set (createLineReader [encode ''id: a'', encode ''bc: def\<newline>x''])
   \<and> Colon \<in> set (encode ''id: abc: def'')
   \<and> encode ''id: abc: def'' ! 2 = Colon
   \<and> Colon \<notin> set (take 2 (encode ''id: abc: def''))
   \<and> (encode ''x'', -1) \<in> set (createLineReader [encode ''id: a'', encode ''bc: def\<newline>x''])
   \<and> Colon \<notin> set (encode ''x'')
   \<and> Colon \<notin> set (encode ''id'') \<and> CarriageReturn \<notin> set (encode ''id'' @ encode '' abc: def'')
   \<and> NewLine \<notin> set (encode ''id'' @ encode '' abc: def'')
   \<and> createLineReader [encode ''id'' @ Colon # encode '' abc: def'' @ [NewLine]]
        = [(encode ''id'' @ Colon # encode '' abc: def'', 2)]"
proof -
  have run: "createLineReader [encode ''id: a'', encode ''bc: def\<newline>x'']
             = [(encode ''id: abc: def'', 2), (encode ''x'', -1)]"
    by code_simp
  have m1: "(encode ''id: abc: def'', 2) \<in> set (createLineReader [encode ''id: a'', encode ''bc: def\<newline>x''])"
    and m2: "(encode ''x'', -1) \<in> set (createLineReader [encode ''id: a'', encode ''bc: def\<newline>x''])"
    unfolding run by simp_all
  have c1: "Colon \<in> set (encode ''id: abc: def'')" and c2: "Colon \<notin> set (encode ''x'')"
    by (simp_all add: encode_def)
  have h: "Colon \<notin> set (encode ''id'') \<and> CarriageReturn \<notin> set (encode ''id'' @ encode '' abc: def'')
           \<and> NewLine \<notin> set (encode ''id'' @ encode '' abc: def'')"
    by (simp add: encode_def)
  note t1 = createLineReader_fieldLength [of "encode ''id: abc: def''" 2 "[encode ''id: a'', encode ''bc: def\<newline>x'']" "[]" "[]",
      THEN conjunct1, rule_format, OF m1, THEN conjunct2, rule_format, OF c1]
  note t2 = createLineReader_fieldLength [of "encode ''x''" "-1" "[encode ''id: a'', encode ''bc: def\<newline>x'']" "[]" "[]",
      THEN conjunct1, rule_format, OF m2, THEN conjunct1, rule_format, OF c2]
  note t3 = createLineReader_fieldLength [of "[]" 0 "[]" "encode ''id''" "encode '' abc: def''",
      THEN conjunct2, rule_format, OF h]
  have len: "int (length (encode ''id'')) = 2" by (simp add: encode_def)
  from t1 t2 t3 m1 m2 c1 c2 h show ?thesis
    by (simp add: len)
qed

subsection \<open>The end of the stream\<close>

lemma bytes_split: "terminatedPrefix bytes @ lastPartial bytes = bytes"
  unfolding terminatedPrefix_def lastPartial_def
  by (metis rev_append rev_rev_ident takeWhile_dropWhile_id)

lemma lastPartial_nonterm: "\<forall>b \<in> set (lastPartial bytes). nonterm b"
  by (auto simp: lastPartial_def dest: set_takeWhileD)

lemma terminatedPrefix_last:
  "terminatedPrefix bytes \<noteq> [] \<Longrightarrow> \<not> nonterm (last (terminatedPrefix bytes))"
  unfolding terminatedPrefix_def
  by (metis hd_dropWhile last_rev rev_is_Nil_conv)

lemma splitBytes_terminatedPrefix:
  "fst (snd (splitBytes [] False (terminatedPrefix bytes))) = []"
  by (cases "terminatedPrefix bytes = []")
     (simp_all add: splitBytes_ends_terminated terminatedPrefix_last)

lemma splitBytes_bytes:
  "splitBytes [] False bytes =
     (fst (splitBytes [] False (terminatedPrefix bytes)), lastPartial bytes,
      snd (snd (splitBytes [] False (terminatedPrefix bytes))) \<and> lastPartial bytes = [])"
proof -
  obtain l1 c1 d1 where r: "splitBytes [] False (terminatedPrefix bytes) = (l1, c1, d1)"
    by (cases "splitBytes [] False (terminatedPrefix bytes)") auto
  with splitBytes_terminatedPrefix [of bytes] have c1: "c1 = []" by simp
  have "splitBytes [] False bytes = splitBytes [] False (terminatedPrefix bytes @ lastPartial bytes)"
    by (simp add: bytes_split)
  then show ?thesis
    unfolding splitBytes_append
    by (simp add: r c1 splitBytes_nonterm_any [OF lastPartial_nonterm])
qed

lemma splitLines_bytes:
  "splitLines bytes = splitLines (terminatedPrefix bytes)
      @ (if lastPartial bytes = [] then [] else [lastPartial bytes])"
proof -
  obtain l1 c1 d1 where r: "splitBytes [] False (terminatedPrefix bytes) = (l1, c1, d1)"
    by (cases "splitBytes [] False (terminatedPrefix bytes)") auto
  with splitBytes_terminatedPrefix [of bytes] have c1: "c1 = []" by simp
  show ?thesis
    unfolding splitLines_def splitBytes_bytes [of bytes]
    by (simp add: flush_def r c1)
qed

lemma lastPartial_Nil_iff:
  "lastPartial bytes = [] \<longleftrightarrow> bytes = [] \<or> last bytes = CarriageReturn \<or> last bytes = NewLine"
  by (cases bytes rule: rev_cases) (auto simp: lastPartial_def nonterm_def)

text \<open>
  Claim C9 (end of the stream). After the last chunk the splitter yields exactly the bytes
  that follow the last terminator of the stream, once, with the offset of their first
  colon, and only when there are such bytes: when the stream is empty or its last byte is a
  \<open>\r\<close> or a \<open>\n\<close>, nothing is yielded after the loop. The lines before are those of
  the stream cut after its last terminator.
\<close>

theorem createLineReader_end_of_stream:
  "remaining (snd (readChunks initialState chunks)) =
     (if lastPartial (concat chunks) = [] then []
      else [(lastPartial (concat chunks), firstColon (lastPartial (concat chunks)))])
   \<and> createLineReader chunks =
       createLineReader [terminatedPrefix (concat chunks)] @
       (if lastPartial (concat chunks) = [] then []
        else [(lastPartial (concat chunks), firstColon (lastPartial (concat chunks)))])
   \<and> (lastPartial (concat chunks) = [] \<longleftrightarrow>
        concat chunks = [] \<or> last (concat chunks) = CarriageReturn \<or> last (concat chunks) = NewLine)
   \<and> createLineReader [encode ''id: abc\<newline>data: def''] =
        [(encode ''id: abc'', 2), (encode ''data: def'', 4)]
   \<and> createLineReader [encode ''id: abc\<newline>data: def\<newline>''] =
        [(encode ''id: abc'', 2), (encode ''data: def'', 4)]"
proof (intro conjI)
  obtain lines cur' d' where r: "splitBytes [] False (concat chunks) = (lines, cur', d')"
    by (cases "splitBytes [] False (concat chunks)") auto
  then have cur': "cur' = lastPartial (concat chunks)"
    using splitBytes_bytes [of "concat chunks"] by simp
  have ok: "stateInv initialState" by (simp add: stateInv_def initialState_def)
  have "splitBytes (pending initialState) (flag initialState) (concat chunks) = (lines, cur', d')"
    using r by (simp add: pending_def flag_def initialState_def)
  from readChunks_splitBytes [OF ok this] obtain st' where
    st': "readChunks initialState chunks = (map (\<lambda>l. (l, firstColon l)) lines, st')"
      "stateInv st'" "pending st' = cur'" "flag st' = d'"
    by blast
  obtain b p f d where s: "st' = (b, p, f, d)" by (cases st') auto
  have "remaining st' = (if cur' = [] then [] else [(cur', firstColon cur')])"
    using st'(2,3) by (auto simp: s remaining_def stateInv_def pending_def split: option.splits)
  then show "remaining (snd (readChunks initialState chunks)) =
     (if lastPartial (concat chunks) = [] then []
      else [(lastPartial (concat chunks), firstColon (lastPartial (concat chunks)))])"
    by (simp add: st'(1) cur')
  show "createLineReader chunks =
       createLineReader [terminatedPrefix (concat chunks)] @
       (if lastPartial (concat chunks) = [] then []
        else [(lastPartial (concat chunks), firstColon (lastPartial (concat chunks)))])"
    by (simp add: createLineReader_splitLines splitLines_bytes [of "concat chunks"])
  show "lastPartial (concat chunks) = [] \<longleftrightarrow>
        concat chunks = [] \<or> last (concat chunks) = CarriageReturn \<or> last (concat chunks) = NewLine"
    by (rule lastPartial_Nil_iff)
  show "createLineReader [encode ''id: abc\<newline>data: def''] =
        [(encode ''id: abc'', 2), (encode ''data: def'', 4)]"
    by code_simp
  show "createLineReader [encode ''id: abc\<newline>data: def\<newline>''] =
        [(encode ''id: abc'', 2), (encode ''data: def'', 4)]"
    by code_simp
qed

section \<open>Claims about the message assembler\<close>

lemma readMessages_count:
  "length (readMessages message parts) = Suc (length (filter (\<lambda>p. p = Empty) parts))"
  by (induction message parts rule: readMessages.induct) auto

lemma readMessages_append_Empty:
  "readMessages message (ps @ Empty # qs) = readMessages message ps @ readMessages emptyMessage qs"
  by (induction message ps rule: readMessages.induct) auto

lemma readMessages_no_Empty:
  "Empty \<notin> set parts \<Longrightarrow> \<exists>m. readMessages message parts = [m]"
  by (induction message parts rule: readMessages.induct) auto

lemma readMessages_Data_nonempty:
  "data message \<noteq> [] \<Longrightarrow>
   readMessages message (map Data vs @ parts) =
   readMessages (message\<lparr>data := data message @ concat (map (\<lambda>v. ''\<newline>'' @ v) vs)\<rparr>) parts"
  by (induction vs arbitrary: message) auto

lemma joinLines_Cons:
  "joinLines (v # vs) = v @ concat (map (\<lambda>w. ''\<newline>'' @ w) vs)"
  by (induction vs arbitrary: v) auto

lemma readMessages_Data_empty:
  "data message = [] \<Longrightarrow>
   readMessages message (map Data vs @ parts) =
   readMessages (message\<lparr>data := joinLines (dropWhile (\<lambda>v. v = []) vs)\<rparr>) parts"
proof (induction vs arbitrary: message)
  case Nil
  then have "message\<lparr>data := []\<rparr> = message" by (cases message) simp
  then show ?case by simp
next
  case (Cons v vs)
  show ?case
  proof (cases "v = []")
    case True
    with Cons show ?thesis by simp
  next
    case False
    with Cons.prems readMessages_Data_nonempty [of "message\<lparr>data := v\<rparr>" vs parts]
    show ?thesis by (simp add: joinLines_Cons)
  qed
qed

text \<open>
  Claim C2 (the last message). The assembler yields one message for every \<open>Empty\<close> part
  and exactly one more when the parts end, whatever the message in progress holds: with no
  parts at all it is the all-default message, and after a final \<open>Empty\<close> part it is the
  all-default message again. The stream \<open>id: abc\ndata: def\n\<close>, which has no blank
  line, yields exactly the message with id \<open>abc\<close> and data \<open>def\<close>.
\<close>

theorem createEventMessageReader_terminal:
  "length (readMessages message parts) = Suc (length (filter (\<lambda>p. p = Empty) parts))
   \<and> length (createEventMessageReader decode parseInt chunks) =
       Suc (length (filter (\<lambda>p. p = Empty) (readEventMessagePart decode parseInt chunks)))
   \<and> readMessages message [] = [message]
   \<and> readMessages message (parts @ [Empty]) = readMessages message parts @ [emptyMessage]
   \<and> createEventMessageReader asciiDecode parseInt10 [encode ''id: abc\<newline>data: def\<newline>''] =
       [\<lparr>id' = ''abc'', event = '''', data = ''def'', retry = None\<rparr>]
   \<and> createEventMessageReader asciiDecode parseInt10 [encode ''data: x\<newline>\<newline>''] =
       [\<lparr>id' = '''', event = '''', data = ''x'', retry = None\<rparr>,
        \<lparr>id' = '''', event = '''', data = '''', retry = None\<rparr>]
   \<and> createEventMessageReader decode parseInt [] =
       [\<lparr>id' = '''', event = '''', data = '''', retry = None\<rparr>]"
proof (intro conjI)
  show "length (readMessages message parts) = Suc (length (filter (\<lambda>p. p = Empty) parts))"
    by (rule readMessages_count)
  show "length (createEventMessageReader decode parseInt chunks) =
       Suc (length (filter (\<lambda>p. p = Empty) (readEventMessagePart decode parseInt chunks)))"
    by (simp add: createEventMessageReader_def readMessages_count)
  show "readMessages message [] = [message]" by simp
  show "readMessages message (parts @ [Empty]) = readMessages message parts @ [emptyMessage]"
    by (simp add: readMessages_append_Empty)
  show "createEventMessageReader asciiDecode parseInt10 [encode ''id: abc\<newline>data: def\<newline>''] =
       [\<lparr>id' = ''abc'', event = '''', data = ''def'', retry = None\<rparr>]"
    by code_simp
  show "createEventMessageReader asciiDecode parseInt10 [encode ''data: x\<newline>\<newline>''] =
       [\<lparr>id' = '''', event = '''', data = ''x'', retry = None\<rparr>,
        \<lparr>id' = '''', event = '''', data = '''', retry = None\<rparr>]"
    by code_simp
  show "createEventMessageReader decode parseInt [] =
       [\<lparr>id' = '''', event = '''', data = '''', retry = None\<rparr>]"
    by (simp add: createEventMessageReader_def readEventMessagePart_def createLineReader_def
        initialState_def remaining_def List.map_filter_simps emptyMessage_def)
qed

text \<open>
  Claim C3 (the empty line). An \<open>Empty\<close> part yields the message in progress, once, and
  the assembler goes on from the all-default message: the parts after an \<open>Empty\<close> part
  are assembled as a stream of their own, so no id, event, data or retry carries over.
\<close>

theorem createEventMessageReader_empty_part:
  "readMessages message (Empty # parts) = message # readMessages emptyMessage parts
   \<and> readMessages message (ps @ Empty # qs) = readMessages message ps @ readMessages emptyMessage qs
   \<and> emptyMessage = \<lparr>id' = '''', event = '''', data = '''', retry = None\<rparr>
   \<and> createEventMessageReader asciiDecode parseInt10
         [encode ''id: 1\<newline>event: add\<newline>retry: 5\<newline>data: x\<newline>\<newline>data: y\<newline>\<newline>''] =
       [\<lparr>id' = ''1'', event = ''add'', data = ''x'', retry = Some 5\<rparr>,
        \<lparr>id' = '''', event = '''', data = ''y'', retry = None\<rparr>,
        \<lparr>id' = '''', event = '''', data = '''', retry = None\<rparr>]"
proof (intro conjI)
  show "readMessages message (Empty # parts) = message # readMessages emptyMessage parts" by simp
  show "readMessages message (ps @ Empty # qs) = readMessages message ps @ readMessages emptyMessage qs"
    by (rule readMessages_append_Empty)
  show "emptyMessage = \<lparr>id' = '''', event = '''', data = '''', retry = None\<rparr>"
    by (simp add: emptyMessage_def)
  show "createEventMessageReader asciiDecode parseInt10
         [encode ''id: 1\<newline>event: add\<newline>retry: 5\<newline>data: x\<newline>\<newline>data: y\<newline>\<newline>''] =
       [\<lparr>id' = ''1'', event = ''add'', data = ''x'', retry = Some 5\<rparr>,
        \<lparr>id' = '''', event = '''', data = ''y'', retry = None\<rparr>,
        \<lparr>id' = '''', event = '''', data = '''', retry = None\<rparr>]"
    by code_simp
qed

text \<open>
  Claim C4 (data lines). A \<open>Data v\<close> part sets the data to \<open>v\<close> when the data is
  empty and appends a newline and \<open>v\<close> otherwise. So the data values before an
  \<open>Empty\<close> part, from the first one that is not empty on, are joined with newlines in
  their order. The stream \<open>data: a\ndata: b\n\n\<close> yields the message with data
  \<open>a\nb\<close>, followed by the all-default message of the end of the stream.
\<close>

theorem createEventMessageReader_data_join:
  "readMessages message (Data v # parts) =
     readMessages (message\<lparr>data := (if data message = '''' then v else data message @ ''\<newline>'' @ v)\<rparr>) parts
   \<and> readMessages emptyMessage (map Data vs @ Empty # parts) =
       emptyMessage\<lparr>data := joinLines (dropWhile (\<lambda>v. v = '''') vs)\<rparr> # readMessages emptyMessage parts
   \<and> joinLines [''a'', ''b'', ''c''] = ''a\<newline>b\<newline>c''
   \<and> createEventMessageReader asciiDecode parseInt10 [encode ''data: a\<newline>data: b\<newline>\<newline>''] =
       [\<lparr>id' = '''', event = '''', data = ''a\<newline>b'', retry = None\<rparr>,
        \<lparr>id' = '''', event = '''', data = '''', retry = None\<rparr>]"
proof (intro conjI)
  show "readMessages message (Data v # parts) =
     readMessages (message\<lparr>data := (if data message = '''' then v else data message @ ''\<newline>'' @ v)\<rparr>) parts"
    by simp
  have "data emptyMessage = []" by (simp add: emptyMessage_def)
  from readMessages_Data_empty [OF this, of vs "Empty # parts"]
  show "readMessages emptyMessage (map Data vs @ Empty # parts) =
       emptyMessage\<lparr>data := joinLines (dropWhile (\<lambda>v. v = '''') vs)\<rparr> # readMessages emptyMessage parts"
    by simp
  show "joinLines [''a'', ''b'', ''c''] = ''a\<newline>b\<newline>c''" by simp
  show "createEventMessageReader asciiDecode parseInt10 [encode ''data: a\<newline>data: b\<newline>\<newline>''] =
       [\<lparr>id' = '''', event = '''', data = ''a\<newline>b'', retry = None\<rparr>,
        \<lparr>id' = '''', event = '''', data = '''', retry = None\<rparr>]"
    by code_simp
qed

section \<open>Claims about the field parser\<close>

lemma skipSpace_drop:
  "skipSpace (drop (Suc n) line) =
     drop (n + (if n + 1 < length line \<and> line ! (n + 1) = Space then 2 else 1)) line"
proof (cases "n + 1 < length line")
  case True
  then have "drop (Suc n) line = line ! (n + 1) # drop (n + 2) line"
    by (simp add: Cons_nth_drop_Suc)
  with True show ?thesis by (simp add: skipSpace_def)
next
  case False
  then show ?thesis by (simp add: skipSpace_def)
qed

lemma messagePart_positive:
  assumes "line \<noteq> []" "0 < fieldLength"
  shows "messagePart decode parseInt (line, fieldLength) =
         partOf parseInt (decode (take (nat fieldLength) line))
           (decode (skipSpace (drop (nat fieldLength + 1) line)))"
proof -
  have "skipSpace (drop (nat fieldLength + 1) line) =
        drop (nat fieldLength +
              (if nat fieldLength + 1 < length line \<and> line ! (nat fieldLength + 1) = Space
               then 2 else 1)) line"
    using skipSpace_drop [of "nat fieldLength" line] by simp
  with assms show ?thesis
    by (simp add: messagePart_def partOf_def subarray_def Let_def split: option.splits)
qed

lemma messagePart_not_positive:
  "line \<noteq> [] \<Longrightarrow> fieldLength \<le> 0 \<Longrightarrow> messagePart decode parseInt (line, fieldLength) = None"
  by (simp add: messagePart_def)



text \<open>
  Claim C7 (field and value). For every line that is not empty and has a strictly positive
  offset, the field name is the decoding of the bytes before the offset and the value is
  the decoding of the bytes after the byte at the offset, without their first byte when
  that is a space: one space is skipped, a second one stays. The part is then chosen by the
  field name. So \<open>data: value\<close> and \<open>data:value\<close> give the same part, and
  \<open>data:  value\<close> gives the value with one leading space.
\<close>

theorem readEventMessagePart_field_value:
  "(line \<noteq> [] \<and> 0 < fieldLength \<longrightarrow>
      messagePart decode parseInt (line, fieldLength) =
      partOf parseInt (decode (take (nat fieldLength) line))
        (decode (skipSpace (drop (nat fieldLength + 1) line))))
   \<and> skipSpace [] = [] \<and> skipSpace (Space # v) = v \<and> (b \<noteq> Space \<longrightarrow> skipSpace (b # v) = b # v)
   \<and> partOf parseInt ''data'' value = Some (Data value)
   \<and> partOf parseInt ''event'' value = Some (Event value)
   \<and> partOf parseInt ''id'' value = Some (Id' value)
   \<and> readEventMessagePart asciiDecode parseInt10
        [encode ''data: value\<newline>data:value\<newline>data:  value\<newline>''] =
       [Data ''value'', Data ''value'', Data '' value'']"
proof (intro conjI impI)
  show "messagePart decode parseInt (line, fieldLength) =
      partOf parseInt (decode (take (nat fieldLength) line))
        (decode (skipSpace (drop (nat fieldLength + 1) line)))"
    if "line \<noteq> [] \<and> 0 < fieldLength"
    using that by (simp add: messagePart_positive)
  show "skipSpace [] = []" "skipSpace (Space # v) = v"
    by (simp_all add: skipSpace_def)
  show "skipSpace (b # v) = b # v" if "b \<noteq> Space"
    using that by (simp add: skipSpace_def)
  show "partOf parseInt ''data'' value = Some (Data value)"
    "partOf parseInt ''event'' value = Some (Event value)"
    "partOf parseInt ''id'' value = Some (Id' value)"
    by (simp_all add: partOf_def)
  show "readEventMessagePart asciiDecode parseInt10
        [encode ''data: value\<newline>data:value\<newline>data:  value\<newline>''] =
       [Data ''value'', Data ''value'', Data '' value'']"
    by code_simp
qed

theorem readEventMessagePart_field_value_witness:
  "encode ''event: add'' \<noteq> [] \<and> (0::int) < 5 \<and> Colon \<noteq> Space
   \<and> messagePart asciiDecode parseInt10 (encode ''event: add'', 5) = Some (Event ''add'')
   \<and> skipSpace (Colon # encode ''x'') = Colon # encode ''x''"
proof -
  have h: "encode ''event: add'' \<noteq> [] \<and> (0::int) < 5" by (simp add: encode_def)
  have g: "Colon \<noteq> Space" by simp
  have f: "asciiDecode (take 5 (encode ''event: add'')) = ''event''" by code_simp
  have v: "asciiDecode (skipSpace (drop 6 (encode ''event: add''))) = ''add''" by code_simp
  note t = readEventMessagePart_field_value [of "encode ''event: add''" 5 asciiDecode parseInt10 "encode ''x''" Colon]
  from t [THEN conjunct1, rule_format, OF h]
    t [THEN conjunct2, THEN conjunct2, THEN conjunct2, THEN conjunct1, rule_format, OF g]
    h g show ?thesis
    by (simp add: f v partOf_def)
qed

text \<open>
  Claim C8 (lines that are dropped). A line that is not empty yields no part when its
  offset is not strictly positive (no colon, or a colon first, as in a comment or in the
  line \<open>:\<close>), when its field name is none of \<open>data\<close>, \<open>event\<close>, \<open>id\<close> and
  \<open>retry\<close>, and when it is a \<open>retry\<close> line whose value does not parse. The parser
  has no failing branch: \<open>messagePart\<close> returns a part or nothing on every line.
\<close>

theorem readEventMessagePart_silent_drop:
  "(line \<noteq> [] \<and> fieldLength \<le> 0 \<longrightarrow> messagePart decode parseInt (line, fieldLength) = None)
   \<and> (line \<noteq> [] \<and> decode (take (nat fieldLength) line) \<notin> {''data'', ''event'', ''id'', ''retry''} \<longrightarrow>
        messagePart decode parseInt (line, fieldLength) = None)
   \<and> (line \<noteq> [] \<and> decode (take (nat fieldLength) line) = ''retry''
        \<and> parseInt (decode (skipSpace (drop (nat fieldLength + 1) line))) = None \<longrightarrow>
        messagePart decode parseInt (line, fieldLength) = None)
   \<and> readEventMessagePart asciiDecode parseInt10 [encode ''foo: bar\<newline>''] = []
   \<and> readEventMessagePart asciiDecode parseInt10 [encode ''retry: x\<newline>''] = []
   \<and> readEventMessagePart asciiDecode parseInt10 [encode '':\<newline>''] = []
   \<and> readEventMessagePart asciiDecode parseInt10 [encode '': a comment\<newline>''] = []
   \<and> readEventMessagePart asciiDecode parseInt10 [encode ''data\<newline>''] = []"
proof (intro conjI impI)
  show "messagePart decode parseInt (line, fieldLength) = None"
    if "line \<noteq> [] \<and> fieldLength \<le> 0"
    using that by (simp add: messagePart_not_positive)
  show "messagePart decode parseInt (line, fieldLength) = None"
    if "line \<noteq> [] \<and> decode (take (nat fieldLength) line) \<notin> {''data'', ''event'', ''id'', ''retry''}"
  proof (cases "0 < fieldLength")
    case True
    with that show ?thesis by (simp add: messagePart_positive partOf_def)
  next
    case False
    with that show ?thesis by (simp add: messagePart_not_positive)
  qed
  show "messagePart decode parseInt (line, fieldLength) = None"
    if "line \<noteq> [] \<and> decode (take (nat fieldLength) line) = ''retry''
        \<and> parseInt (decode (skipSpace (drop (nat fieldLength + 1) line))) = None"
  proof (cases "0 < fieldLength")
    case True
    with that show ?thesis by (simp add: messagePart_positive partOf_def)
  next
    case False
    with that show ?thesis by (simp add: messagePart_not_positive)
  qed
  show "readEventMessagePart asciiDecode parseInt10 [encode ''foo: bar\<newline>''] = []" by code_simp
  show "readEventMessagePart asciiDecode parseInt10 [encode ''retry: x\<newline>''] = []" by code_simp
  show "readEventMessagePart asciiDecode parseInt10 [encode '':\<newline>''] = []" by code_simp
  show "readEventMessagePart asciiDecode parseInt10 [encode '': a comment\<newline>''] = []" by code_simp
  show "readEventMessagePart asciiDecode parseInt10 [encode ''data\<newline>''] = []" by code_simp
qed


theorem readEventMessagePart_silent_drop_witness:
  "encode ''nocolon'' \<noteq> [] \<and> (-1::int) \<le> 0
   \<and> messagePart asciiDecode parseInt10 (encode ''nocolon'', -1) = None
   \<and> asciiDecode (take (nat 3) (encode ''foo: bar'')) \<notin> {''data'', ''event'', ''id'', ''retry''}
   \<and> messagePart asciiDecode parseInt10 (encode ''foo: bar'', 3) = None
   \<and> asciiDecode (take (nat 5) (encode ''retry: x'')) = ''retry''
   \<and> parseInt10 (asciiDecode (skipSpace (drop (nat 5 + 1) (encode ''retry: x'')))) = None
   \<and> messagePart asciiDecode parseInt10 (encode ''retry: x'', 5) = None"
proof -
  have h1: "encode ''nocolon'' \<noteq> [] \<and> (-1::int) \<le> 0" by (simp add: encode_def)
  have f2: "asciiDecode (take (nat 3) (encode ''foo: bar'')) \<notin> {''data'', ''event'', ''id'', ''retry''}"
    by code_simp
  have h2: "encode ''foo: bar'' \<noteq> [] \<and>
            asciiDecode (take (nat 3) (encode ''foo: bar'')) \<notin> {''data'', ''event'', ''id'', ''retry''}"
    using f2 by (simp add: encode_def)
  have f3: "asciiDecode (take (nat 5) (encode ''retry: x'')) = ''retry''" by code_simp
  have p3: "parseInt10 (asciiDecode (skipSpace (drop (nat 5 + 1) (encode ''retry: x'')))) = None"
    by code_simp
  have h3: "encode ''retry: x'' \<noteq> [] \<and> asciiDecode (take (nat 5) (encode ''retry: x'')) = ''retry''
        \<and> parseInt10 (asciiDecode (skipSpace (drop (nat 5 + 1) (encode ''retry: x'')))) = None"
    using f3 p3 by (simp add: encode_def)
  note t1 = readEventMessagePart_silent_drop [of "encode ''nocolon''" "-1" asciiDecode parseInt10,
      THEN conjunct1, rule_format, OF h1]
  note t2 = readEventMessagePart_silent_drop [of "encode ''foo: bar''" 3 asciiDecode parseInt10,
      THEN conjunct2, THEN conjunct1, rule_format, OF h2]
  note t3 = readEventMessagePart_silent_drop [of "encode ''retry: x''" 5 asciiDecode parseInt10,
      THEN conjunct2, THEN conjunct2, THEN conjunct1, rule_format, OF h3]
  show ?thesis
    using h1 f2 f3 p3 t1 t2 t3 by (intro conjI) simp_all
qed

text \<open>
  Claim C10 (retry values). A \<open>retry\<close> line yields \<open>Retry n\<close> exactly when
  \<^verbatim>\<open>parseInt(value, 10)\<close> gives a number \<open>n\<close>, and nothing when it gives \<^verbatim>\<open>NaN\<close>.
  Since \<^verbatim>\<open>parseInt\<close> reads a sign and the longest prefix of digits, \<open>512abc\<close> gives
  \<open>Retry 512\<close>, \<open>-5\<close> gives \<open>Retry (-5)\<close> and \<open>12.5\<close> gives \<open>Retry 12\<close>.
\<close>

theorem readEventMessagePart_retry:
  "(line \<noteq> [] \<and> 0 < fieldLength \<and> decode (take (nat fieldLength) line) = ''retry'' \<longrightarrow>
      messagePart decode parseInt (line, fieldLength) =
        (case parseInt (decode (skipSpace (drop (nat fieldLength + 1) line))) of
           None \<Rightarrow> None | Some n \<Rightarrow> Some (Retry n)))
   \<and> parseInt10 ''512abc'' = Some 512
   \<and> parseInt10 ''-5'' = Some (-5)
   \<and> parseInt10 ''abc'' = None
   \<and> readEventMessagePart asciiDecode parseInt10 [encode ''retry: 512abc\<newline>''] = [Retry 512]
   \<and> readEventMessagePart asciiDecode parseInt10 [encode ''retry: -5\<newline>''] = [Retry (-5)]
   \<and> readEventMessagePart asciiDecode parseInt10 [encode ''retry: 12.5\<newline>''] = [Retry 12]
   \<and> readEventMessagePart asciiDecode parseInt10 [encode ''retry: abc\<newline>''] = []"
proof (intro conjI impI)
  show "messagePart decode parseInt (line, fieldLength) =
        (case parseInt (decode (skipSpace (drop (nat fieldLength + 1) line))) of
           None \<Rightarrow> None | Some n \<Rightarrow> Some (Retry n))"
    if "line \<noteq> [] \<and> 0 < fieldLength \<and> decode (take (nat fieldLength) line) = ''retry''"
    using that by (simp add: messagePart_positive partOf_def split: option.splits)
  show "parseInt10 ''512abc'' = Some 512" by code_simp
  show "parseInt10 ''-5'' = Some (-5)" by code_simp
  show "parseInt10 ''abc'' = None" by code_simp
  show "readEventMessagePart asciiDecode parseInt10 [encode ''retry: 512abc\<newline>''] = [Retry 512]"
    by code_simp
  show "readEventMessagePart asciiDecode parseInt10 [encode ''retry: -5\<newline>''] = [Retry (-5)]"
    by code_simp
  show "readEventMessagePart asciiDecode parseInt10 [encode ''retry: 12.5\<newline>''] = [Retry 12]"
    by code_simp
  show "readEventMessagePart asciiDecode parseInt10 [encode ''retry: abc\<newline>''] = []"
    by code_simp
qed

theorem readEventMessagePart_retry_witness:
  "encode ''retry: 512abc'' \<noteq> [] \<and> (0::int) < 5
   \<and> asciiDecode (take (nat 5) (encode ''retry: 512abc'')) = ''retry''
   \<and> parseInt10 (asciiDecode (skipSpace (drop (nat 5 + 1) (encode ''retry: 512abc'')))) = Some 512
   \<and> messagePart asciiDecode parseInt10 (encode ''retry: 512abc'', 5) = Some (Retry 512)"
proof -
  have f: "asciiDecode (take (nat 5) (encode ''retry: 512abc'')) = ''retry''" by code_simp
  have p: "parseInt10 (asciiDecode (skipSpace (drop (nat 5 + 1) (encode ''retry: 512abc'')))) = Some 512"
    by code_simp
  have h: "encode ''retry: 512abc'' \<noteq> [] \<and> (0::int) < 5
           \<and> asciiDecode (take (nat 5) (encode ''retry: 512abc'')) = ''retry''"
    using f by (simp add: encode_def)
  note t = readEventMessagePart_retry [of "encode ''retry: 512abc''" 5 asciiDecode parseInt10,
      THEN conjunct1, rule_format, OF h]
  show ?thesis
    using h p t by (intro conjI) simp_all
qed

end
